theory Spec2Isabelle
  imports Main
begin

section \<open>The overlay registry of \<open>src/index.tsx\<close>\<close>

text \<open>
  The class \<open>Overlay\<close> keeps three instance fields: the counter \<open>iid\<close> (initially
  \<open>-1\<close>), the array \<open>components\<close> of \<open>[id, node]\<close> pairs and the array
  \<open>subscribers\<close> of callbacks. Every callback in \<open>subscribers\<close> is a closure created
  by one run of the effect of \<open>Container\<close>; a closure is named here by the number of
  the Container instance that created it. Objects of class \<open>Overlay\<close> are named by
  a reference; the fields of each object live in the heap under that reference.

  The counter is a JavaScript number. It starts at \<open>-1\<close> and only ever grows by one,
  so it stays an integer; it is modelled as an unbounded \<open>int\<close>, which is exact while
  fewer than \<open>2 ^ 53\<close> ids have been handed out.
\<close>

subsection \<open>Data\<close>

type_synonym ref = nat
type_synonym cid = nat

record 'c overlay =
  iid :: int
  components :: "(int \<times> 'c) list"
  subscribers :: "cid list"

text \<open>The field initialisers of the class (lines 16, 22 and 27).\<close>

definition new_Overlay :: "'c overlay" where
  "new_Overlay = \<lparr>iid = - 1, components = [], subscribers = []\<rparr>"

text \<open>
  A mounted \<open>Container\<close>: the object whose \<open>Container\<close> property it is (\<open>this\<close> in
  the closure), the value \<open>subscription\<close> returned by \<open>Array.push\<close> in its effect,
  and the cell of its \<open>useState\<close>.
\<close>

record 'c container =
  owner :: ref
  subscription :: int
  shown :: "(int \<times> 'c) list"

text \<open>
  The world: the heap of overlays, the mounted containers, the number of the next
  Container instance, and two logs: \<open>notified\<close> lists the callbacks in the order they
  were invoked, \<open>issued\<close> lists the ids in the order they were passed to a content
  function, each with the overlay that passed it.
\<close>

record 'c world =
  heap :: "ref \<Rightarrow> 'c overlay"
  containers :: "cid \<rightharpoonup> 'c container"
  next_cid :: cid
  notified :: "cid list"
  issued :: "(ref \<times> int) list"

definition init :: "'c world" where
  "init = \<lparr>heap = (\<lambda>_. new_Overlay), containers = Map.empty, next_cid = 0,
            notified = [], issued = []\<rparr>"

text \<open>
  The argument of \<open>push\<close> is a node or a function of the id; the function may throw.
  A call completes normally or throws. Content functions and callbacks are taken
  not to call back into the overlay while they run.
\<close>

datatype ('c, 'e) arg = Node 'c | Fn "int \<Rightarrow> 'e + 'c"

datatype 'e completion = Normal | Throw 'e

subsection \<open>Array operations of JavaScript\<close>

text \<open>
  \<open>xs.splice(start)\<close> with no delete count removes every element from \<open>start\<close> to the
  end; a negative \<open>start\<close> counts from the end. The array that remains:
\<close>

definition splice :: "int \<Rightarrow> 'a list \<Rightarrow> 'a list" where
  "splice start xs =
     (let len = int (length xs);
          from = (if start < 0 then max (len + start) 0 else min start len)
      in take (nat from) xs)"

text \<open>\<open>xs.slice(start, end)\<close>; negative indices count from the end.\<close>

definition slice :: "int \<Rightarrow> int \<Rightarrow> 'a list \<Rightarrow> 'a list" where
  "slice start end xs =
     (let len = int (length xs);
          k = (if start < 0 then max (len + start) 0 else min start len);
          final = (if end < 0 then max (len + end) 0 else min end len)
      in take (nat (final - k)) (drop (nat k) xs))"

subsection \<open>Notification\<close>

definition update :: "ref \<Rightarrow> ('c overlay \<Rightarrow> 'c overlay) \<Rightarrow> 'c world \<Rightarrow> 'c world" where
  "update r f w = w\<lparr>heap := (heap w)(r := f (heap w r))\<rparr>"

text \<open>
  The closure \<open>() => { setComponents(this.components) }\<close> of container \<open>k\<close> (lines
  49 to 51): it stores the current list of its overlay in the container's state
  cell. The setter of a container that is no longer mounted stores nothing.
\<close>

definition invoke :: "cid \<Rightarrow> 'c world \<Rightarrow> 'c world" where
  "invoke k w =
     (case containers w k of
        None \<Rightarrow> w\<lparr>notified := notified w @ [k]\<rparr>
      | Some c \<Rightarrow>
          w\<lparr>containers := (containers w)(k \<mapsto> c\<lparr>shown := components (heap w (owner c))\<rparr>),
            notified := notified w @ [k]\<rparr>)"

text \<open>\<open>this.subscribers.forEach(fn => fn())\<close>\<close>

definition notify :: "ref \<Rightarrow> 'c world \<Rightarrow> 'c world" where
  "notify r w = fold invoke (subscribers (heap w r)) w"

subsection \<open>The mutation methods\<close>

definition dismissAll :: "ref \<Rightarrow> 'c world \<Rightarrow> 'c world" where
  "dismissAll r w = notify r (update r (\<lambda>ov. ov\<lparr>components := []\<rparr>) w)"

text \<open>
  \<open>pushWithId\<close> (lines 116 to 120): the counter is incremented and stored first;
  then the array literal is evaluated, which calls \<open>component(id)\<close>. If that call
  throws, the assignment to \<open>this.components\<close> and the \<open>forEach\<close> are not reached.
\<close>

definition pushWithId ::
    "ref \<Rightarrow> (int \<Rightarrow> 'e + 'c) \<Rightarrow> 'c world \<Rightarrow> 'e completion \<times> 'c world" where
  "pushWithId r component w =
     (let id' = iid (heap w r) + 1;
          w1 = (update r (\<lambda>ov. ov\<lparr>iid := id'\<rparr>) w)\<lparr>issued := issued w @ [(r, id')]\<rparr>
      in case component id' of
           Inl e \<Rightarrow> (Throw e, w1)
         | Inr node \<Rightarrow>
             (Normal,
              notify r (update r (\<lambda>ov. ov\<lparr>components := components ov @ [(id', node)]\<rparr>) w1)))"

definition pushLast :: "ref \<Rightarrow> 'c \<Rightarrow> 'c world \<Rightarrow> 'c world" where
  "pushLast r component w =
     notify r (update r (\<lambda>ov. ov\<lparr>components := components ov @ [(- 1, component)]\<rparr>) w)"

definition dismissById :: "ref \<Rightarrow> int \<Rightarrow> 'c world \<Rightarrow> 'c world" where
  "dismissById r id' w =
     notify r
       (update r (\<lambda>ov. ov\<lparr>components := filter (\<lambda>it. fst it \<noteq> id') (components ov)\<rparr>) w)"

definition dismissLast :: "ref \<Rightarrow> 'c world \<Rightarrow> 'c world" where
  "dismissLast r w =
     notify r (update r (\<lambda>ov. ov\<lparr>components := slice 0 (- 1) (components ov)\<rparr>) w)"

text \<open>\<open>push\<close> and \<open>dismiss\<close> dispatch on the type of the argument.\<close>

definition push :: "ref \<Rightarrow> ('c, 'e) arg \<Rightarrow> 'c world \<Rightarrow> 'e completion \<times> 'c world" where
  "push r component w =
     (case component of
        Fn f \<Rightarrow> pushWithId r f w
      | Node c \<Rightarrow> (Normal, pushLast r c w))"

definition dismiss :: "ref \<Rightarrow> int option \<Rightarrow> 'c world \<Rightarrow> 'c world" where
  "dismiss r id' w =
     (case id' of
        Some n \<Rightarrow> dismissById r n w
      | None \<Rightarrow> dismissLast r w)"

subsection \<open>The life of a Container\<close>

text \<open>
  Mounting (lines 46 to 52): \<open>useState(this.components)\<close> takes the current list as
  the first state, and the effect pushes a new closure on \<open>this.subscribers\<close>;
  \<open>Array.push\<close> returns the new length. Unmounting runs the cleanup of the effect
  (lines 53 to 55): \<open>this.subscribers.splice(subscription - 1)\<close>.
\<close>

definition mount :: "ref \<Rightarrow> 'c world \<Rightarrow> cid \<times> 'c world" where
  "mount r w =
     (let k = next_cid w;
          ov = heap w r;
          subs = subscribers ov @ [k]
      in (k, w\<lparr>heap := (heap w)(r := ov\<lparr>subscribers := subs\<rparr>),
               containers := (containers w)(k \<mapsto>
                  \<lparr>owner = r, subscription = int (length subs), shown = components ov\<rparr>),
               next_cid := Suc k\<rparr>))"

definition unmount :: "cid \<Rightarrow> 'c world \<Rightarrow> 'c world" where
  "unmount k w =
     (case containers w k of
        None \<Rightarrow> w
      | Some c \<Rightarrow>
          (update (owner c)
             (\<lambda>ov. ov\<lparr>subscribers := splice (subscription c - 1) (subscribers ov)\<rparr>) w)
          \<lparr>containers := (containers w)(k := None)\<rparr>)"

subsection \<open>Sequences of calls\<close>

datatype ('c, 'e) action =
    Mount ref
  | Unmount cid
  | Push ref "('c, 'e) arg"
  | Dismiss ref "int option"
  | DismissAll ref

fun step :: "('c, 'e) action \<Rightarrow> 'c world \<Rightarrow> 'e completion \<times> 'c world" where
  "step (Mount r) w = (Normal, snd (mount r w))"
| "step (Unmount k) w = (Normal, unmount k w)"
| "step (Push r component) w = push r component w"
| "step (Dismiss r id') w = (Normal, dismiss r id' w)"
| "step (DismissAll r) w = (Normal, dismissAll r w)"

text \<open>
  A thrown exception leaves the fields as they were at the throw; the caller may
  catch it and go on, so a run continues from the world the failed call left.
\<close>

fun run :: "('c, 'e) action list \<Rightarrow> 'c world \<Rightarrow> 'c world" where
  "run [] w = w"
| "run (a # as) w = run as (snd (step a w))"

text \<open>The overlay whose method an action calls, for the five mutation methods.\<close>

fun mutates :: "('c, 'e) action \<Rightarrow> ref option" where
  "mutates (Push r _) = Some r"
| "mutates (Dismiss r _) = Some r"
| "mutates (DismissAll r) = Some r"
| "mutates _ = None"

text \<open>An action returns when it is not a \<open>push\<close> of a function that throws.\<close>

fun returns :: "('c, 'e) action \<Rightarrow> 'c world \<Rightarrow> bool" where
  "returns (Push r (Fn f)) w = (case f (iid (heap w r) + 1) of Inl _ \<Rightarrow> False | Inr _ \<Rightarrow> True)"
| "returns _ w = True"

subsection \<open>JavaScript's conversion of an integer to a string\<close>

text \<open>
  The decimal digits, with a minus sign for a negative number; this is what
  \<open>"B" + id\<close> appends for an integer below \<open>10 ^ 21\<close> in absolute value.
\<close>

definition digit :: "nat \<Rightarrow> char" where
  "digit d = ''0123456789'' ! d"

fun digits :: "nat \<Rightarrow> string" where
  "digits n = (if n < 10 then [digit n] else digits (n div 10) @ [digit (n mod 10)])"

declare digits.simps [simp del]

definition toString :: "int \<Rightarrow> string" where
  "toString i = (if i < 0 then CHR ''-'' # digits (nat (- i)) else digits (nat i))"

text \<open>The content function \<open>id => "B" + id\<close> of the scenario.\<close>

definition factoryB :: "int \<Rightarrow> 'e + string" where
  "factoryB id' = Inr (''B'' @ toString id')"

section \<open>Invariants of the worlds that the calls can reach\<close>

text \<open>
  Every closure in a \<open>subscribers\<close> array belongs to a mounted container of that
  overlay and sits at the index \<open>subscription - 1\<close>; the numbers of the mounted
  containers are below the next one.
\<close>

definition wf :: "'c world \<Rightarrow> bool" where
  "wf w \<longleftrightarrow>
     (\<forall>r. \<forall>i < length (subscribers (heap w r)).
        \<exists>c. containers w (subscribers (heap w r) ! i) = Some c \<and> owner c = r \<and>
            subscription c = int i + 1)
     \<and> (\<forall>k. k \<in> dom (containers w) \<longrightarrow> k < next_cid w)"

text \<open>
  The tags of an overlay's items do not exceed its counter, and the tags other than
  \<open>-1\<close> are pairwise different.
\<close>

definition ids_ok :: "'c overlay \<Rightarrow> bool" where
  "ids_ok ov \<longleftrightarrow>
     - 1 \<le> iid ov \<and> (\<forall>i \<in> fst ` set (components ov). i \<le> iid ov) \<and>
     distinct (filter (\<lambda>i. i \<noteq> - 1) (map fst (components ov)))"

text \<open>The ids that overlay \<open>r\<close> has passed to content functions, in order.\<close>

definition issued_by :: "ref \<Rightarrow> 'c world \<Rightarrow> int list" where
  "issued_by r w = map snd (filter (\<lambda>p. fst p = r) (issued w))"

definition increasing :: "ref \<Rightarrow> 'c world \<Rightarrow> bool" where
  "increasing r w \<longleftrightarrow>
     sorted_wrt (<) (issued_by r w) \<and> (\<forall>i \<in> set (issued_by r w). i \<le> iid (heap w r))"


text \<open>
  Containers are numbered in the order in which they are mounted; every
  \<open>subscribers\<close> array lists its closures in that order.
\<close>

definition in_order :: "'c world \<Rightarrow> bool" where
  "in_order w \<longleftrightarrow>
     (\<forall>r. sorted_wrt (<) (subscribers (heap w r)) \<and>
          (\<forall>k \<in> set (subscribers (heap w r)). k < next_cid w))"

section \<open>Evaluation of the methods on one overlay\<close>

lemma slice_butlast: "slice 0 (- 1) xs = butlast xs"
  by (cases xs rule: rev_cases) (simp_all add: slice_def Let_def butlast_conv_take)

subsection \<open>What a notification pass changes\<close>

lemma heap_invoke [simp]: "heap (invoke k w) = heap w"
  by (simp add: invoke_def split: option.split)

lemma next_cid_invoke [simp]: "next_cid (invoke k w) = next_cid w"
  by (simp add: invoke_def split: option.split)

lemma issued_invoke [simp]: "issued (invoke k w) = issued w"
  by (simp add: invoke_def split: option.split)

lemma notified_invoke [simp]: "notified (invoke k w) = notified w @ [k]"
  by (simp add: invoke_def split: option.split)

lemma containers_invoke:
  "containers (invoke k w) j =
     (if j = k then map_option (\<lambda>c. c\<lparr>shown := components (heap w (owner c))\<rparr>) (containers w j)
      else containers w j)"
  by (simp add: invoke_def split: option.split)

lemma heap_fold_invoke [simp]: "heap (fold invoke ks w) = heap w"
  by (induction ks arbitrary: w) simp_all

lemma next_cid_fold_invoke [simp]: "next_cid (fold invoke ks w) = next_cid w"
  by (induction ks arbitrary: w) simp_all

lemma issued_fold_invoke [simp]: "issued (fold invoke ks w) = issued w"
  by (induction ks arbitrary: w) simp_all

lemma notified_fold_invoke [simp]: "notified (fold invoke ks w) = notified w @ ks"
  by (induction ks arbitrary: w) simp_all

lemma containers_fold_invoke:
  "containers (fold invoke ks w) j =
     (if j \<in> set ks
      then map_option (\<lambda>c. c\<lparr>shown := components (heap w (owner c))\<rparr>) (containers w j)
      else containers w j)"
proof (induction ks arbitrary: w)
  case Nil
  show ?case by simp
next
  case (Cons k ks)
  show ?case
    by (cases "containers w j") (auto simp add: Cons.IH containers_invoke)
qed

lemma heap_notify [simp]: "heap (notify r w) = heap w"
  by (simp add: notify_def)

lemma next_cid_notify [simp]: "next_cid (notify r w) = next_cid w"
  by (simp add: notify_def)

lemma issued_notify [simp]: "issued (notify r w) = issued w"
  by (simp add: notify_def)

lemma notified_notify [simp]: "notified (notify r w) = notified w @ subscribers (heap w r)"
  by (simp add: notify_def)

lemma containers_notify:
  "containers (notify r w) j =
     (if j \<in> set (subscribers (heap w r))
      then map_option (\<lambda>c. c\<lparr>shown := components (heap w (owner c))\<rparr>) (containers w j)
      else containers w j)"
  by (simp add: notify_def containers_fold_invoke)

lemma heap_update [simp]: "heap (update r f w) = (heap w)(r := f (heap w r))"
  by (simp add: update_def)

lemma update_others [simp]:
  "containers (update r f w) = containers w"
  "next_cid (update r f w) = next_cid w"
  "notified (update r f w) = notified w"
  "issued (update r f w) = issued w"
  by (simp_all add: update_def)

lemmas method_defs = push_def pushLast_def pushWithId_def
  dismiss_def dismissById_def dismissLast_def dismissAll_def


lemmas eval_defs = init_def new_Overlay_def push_def pushLast_def pushWithId_def
  dismiss_def dismissById_def dismissLast_def dismissAll_def slice_butlast
  mount_def unmount_def splice_def Let_def factoryB_def toString_def digits.simps digit_def
  containers_notify


subsection \<open>Fields after one call\<close>

lemma subscribers_step_mutation:
  "mutates a = Some r \<Longrightarrow>
   subscribers (heap (snd (step a w)) r') = subscribers (heap w r')"
  by (cases a) (auto simp: method_defs Let_def split: arg.split sum.split option.split)

lemma heap_step_other:
  "mutates a = Some r \<Longrightarrow> r' \<noteq> r \<Longrightarrow> heap (snd (step a w)) r' = heap w r'"
  by (cases a) (auto simp: method_defs Let_def split: arg.split sum.split option.split)

lemma notified_step_mutation:
  "mutates a = Some r \<Longrightarrow> returns a w \<Longrightarrow>
   notified (snd (step a w)) = notified w @ subscribers (heap w r)"
  by (cases a) (auto simp: method_defs Let_def split: arg.splits sum.splits option.split)

lemma notified_step_prefix:
  "mutates a = Some r \<Longrightarrow>
   notified (snd (step a w)) = notified w @ subscribers (heap w r) \<or>
   notified (snd (step a w)) = notified w"
  by (cases a) (auto simp: method_defs Let_def split: arg.splits sum.splits option.split)

lemma completion_step:
  "returns a w \<Longrightarrow> fst (step a w) = Normal"
  by (cases a) (auto simp: method_defs Let_def split: arg.splits sum.splits option.split)

lemma containers_step_mutation:
  "mutates a = Some r \<Longrightarrow> returns a w \<Longrightarrow>
   containers (snd (step a w)) k =
     (if k \<in> set (subscribers (heap w r))
      then map_option (\<lambda>c. c\<lparr>shown := components (heap (snd (step a w)) (owner c))\<rparr>)
             (containers w k)
      else containers w k)"
  by (cases a) (auto simp: method_defs Let_def containers_notify split: arg.splits sum.splits option.split)

section \<open>The invariants hold in every reachable world\<close>

lemma run_append: "run (as @ bs) w = run bs (run as w)"
  by (induction as arbitrary: w) simp_all

lemma run_invariant:
  fixes as :: "('c, 'e) action list"
  assumes "P w" and "\<And>(a :: ('c, 'e) action) w. P w \<Longrightarrow> P (snd (step a w))"
  shows "P (run as w)"
  using assms(1)
proof (induction as arbitrary: w)
  case Nil
  then show ?case by simp
next
  case (Cons a as)
  from Cons.prems have "P (snd (step a w))" by (rule assms(2))
  then have "P (run as (snd (step a w)))" by (rule Cons.IH)
  then show ?case by simp
qed

lemma wf_init: "wf init"
  by (simp add: wf_def init_def new_Overlay_def)

lemma wf_owner:
  "wf w \<Longrightarrow> k \<in> set (subscribers (heap w r)) \<Longrightarrow> \<exists>c. containers w k = Some c \<and> owner c = r"
  unfolding wf_def in_set_conv_nth by blast

lemma wf_mount: assumes "wf w" shows "wf (snd (mount r w))"
proof -
  have fresh: "next_cid w \<notin> set (subscribers (heap w r'))" for r'
    using wf_owner[OF assms, of "next_cid w" r'] assms unfolding wf_def by (auto simp: dom_def)
  show ?thesis
    unfolding wf_def
  proof (intro conjI allI impI)
    fix r' i
    assume i: "i < length (subscribers (heap (snd (mount r w)) r'))"
    show "\<exists>c. containers (snd (mount r w)) (subscribers (heap (snd (mount r w)) r') ! i) = Some c \<and>
            owner c = r' \<and> subscription c = int i + 1"
    proof (cases "r' = r \<and> i = length (subscribers (heap w r))")
      case True
      then show ?thesis by (simp add: mount_def Let_def)
    next
      case False
      with i have i': "i < length (subscribers (heap w r'))"
        by (auto simp: mount_def Let_def split: if_splits)
      then have "subscribers (heap w r') ! i \<noteq> next_cid w"
        using fresh[of r'] by (metis nth_mem)
      moreover have "subscribers (heap (snd (mount r w)) r') ! i = subscribers (heap w r') ! i"
        using i' by (auto simp add: mount_def Let_def nth_append)
      ultimately show ?thesis
        using assms i' unfolding wf_def by (simp add: mount_def Let_def)
    qed
  next
    fix k assume "k \<in> dom (containers (snd (mount r w)))"
    then show "k < next_cid (snd (mount r w))"
      using assms unfolding wf_def by (auto simp: mount_def Let_def split: if_splits)
  qed
qed

lemma splice_nth: "i < length (splice start xs) \<Longrightarrow> splice start xs ! i = xs ! i"
  by (simp add: splice_def Let_def)

lemma splice_length_le: "length (splice start xs) \<le> length xs"
  by (simp add: splice_def Let_def)

lemma splice_below: "i < length (splice (s - 1) xs) \<Longrightarrow> int i + 1 \<noteq> s"
  by (auto simp: splice_def Let_def split: if_splits)

lemma wf_unmount: assumes "wf w" shows "wf (unmount k w)"
proof (cases "containers w k")
  case None
  then show ?thesis using assms by (simp add: unmount_def)
next
  case (Some c)
  let ?w' = "unmount k w"
  have subs: "subscribers (heap ?w' r) =
      (if r = owner c then splice (subscription c - 1) (subscribers (heap w r))
       else subscribers (heap w r))" for r
    using Some by (simp add: unmount_def)
  have conts: "containers ?w' = (containers w)(k := None)"
    using Some by (simp add: unmount_def)
  have nxt: "next_cid ?w' = next_cid w"
    using Some by (simp add: unmount_def)
  show ?thesis
    unfolding wf_def
  proof (intro conjI allI impI)
    fix r i
    assume i: "i < length (subscribers (heap ?w' r))"
    then have i': "i < length (subscribers (heap w r))"
      using splice_length_le[of "subscription c - 1" "subscribers (heap w r)"]
      by (auto simp: subs split: if_splits)
    have same: "subscribers (heap ?w' r) ! i = subscribers (heap w r) ! i"
      using i by (auto simp: subs splice_nth split: if_splits)
    from assms i' obtain d where d: "containers w (subscribers (heap w r) ! i) = Some d"
      "owner d = r" "subscription d = int i + 1"
      unfolding wf_def by blast
    have "subscribers (heap w r) ! i \<noteq> k"
    proof
      assume "subscribers (heap w r) ! i = k"
      with d Some have dc: "d = c" by simp
      with d i have "i < length (splice (subscription c - 1) (subscribers (heap w r)))"
        by (simp add: subs)
      from splice_below[OF this] d dc show False by simp
    qed
    with d show "\<exists>c. containers ?w' (subscribers (heap ?w' r) ! i) = Some c \<and> owner c = r \<and>
            subscription c = int i + 1"
      by (simp add: same conts)
  next
    fix j assume "j \<in> dom (containers ?w')"
    then show "j < next_cid ?w'"
      using assms unfolding wf_def by (auto simp: conts nxt split: if_splits)
  qed
qed

lemma wf_mutation:
  assumes "wf w" and "mutates a = Some r"
  shows "wf (snd (step a w))"
proof -
  let ?w' = "snd (step a w)"
  have subs: "subscribers (heap ?w' r') = subscribers (heap w r')" for r'
    using assms(2) by (rule subscribers_step_mutation)
  have nxt: "next_cid ?w' = next_cid w"
    using assms(2)
    by (cases a) (auto simp: method_defs Let_def split: arg.split sum.split option.split)
  have throw: "containers ?w' = containers w" if "\<not> returns a w"
    using that by (cases a) (auto simp: method_defs Let_def split: arg.splits sum.splits)
  have keep: "\<exists>d. containers ?w' j = Some d \<and> owner d = owner c \<and> subscription d = subscription c"
    if "containers w j = Some c" for j c
  proof (cases "returns a w")
    case True
    show ?thesis by (simp add: containers_step_mutation[OF assms(2) True] that)
  next
    case False
    then show ?thesis by (simp add: throw that)
  qed
  have dom: "j \<in> dom (containers w)" if "j \<in> dom (containers ?w')" for j
  proof (cases "returns a w")
    case True
    show ?thesis
      using that by (auto simp: containers_step_mutation[OF assms(2) True] split: if_splits)
  next
    case False
    then show ?thesis using that by (simp add: throw)
  qed
  show ?thesis
    unfolding wf_def
  proof (intro conjI allI impI)
    fix r' i
    assume "i < length (subscribers (heap ?w' r'))"
    then have "i < length (subscribers (heap w r'))" by (simp add: subs)
    with assms(1) obtain c where c: "containers w (subscribers (heap w r') ! i) = Some c"
      "owner c = r'" "subscription c = int i + 1"
      unfolding wf_def by blast
    from keep[OF c(1)] c(2,3)
    show "\<exists>c. containers ?w' (subscribers (heap ?w' r') ! i) = Some c \<and> owner c = r' \<and>
            subscription c = int i + 1"
      by (auto simp: subs)
  next
    fix j assume "j \<in> dom (containers ?w')"
    then have "j \<in> dom (containers w)" by (rule dom)
    then show "j < next_cid ?w'"
      using assms(1) unfolding wf_def by (simp add: nxt)
  qed
qed

lemma wf_step: "wf w \<Longrightarrow> wf (snd (step a w))"
proof (cases a)
  case (Mount r)
  assume "wf w" then show ?thesis using Mount by (simp add: wf_mount)
next
  case (Unmount k)
  assume "wf w" then show ?thesis using Unmount by (simp add: wf_unmount)
next
  case (Push r c)
  assume "wf w" then show ?thesis using Push wf_mutation[of w a r] by simp
next
  case (Dismiss r i)
  assume "wf w" then show ?thesis using Dismiss wf_mutation[of w a r] by simp
next
  case (DismissAll r)
  assume "wf w" then show ?thesis using DismissAll wf_mutation[of w a r] by simp
qed

lemma wf_run: "wf (run as init)"
  by (rule run_invariant) (simp_all add: wf_init wf_step)

subsection \<open>The tags of the items\<close>

lemma distinct_tags_filter:
  "distinct (filter P (map fst xs)) \<Longrightarrow> distinct (filter P (map fst (filter Q xs)))"
  by (induction xs) force+

lemma distinct_tags_butlast:
  "distinct (filter P (map fst xs)) \<Longrightarrow> distinct (filter P (map fst (butlast xs)))"
  by (cases xs rule: rev_cases) auto

lemma ids_ok_new: "ids_ok new_Overlay"
  by (simp add: ids_ok_def new_Overlay_def)

lemma ids_ok_step:
  assumes "ids_ok (heap w r)"
  shows "ids_ok (heap (snd (step a w)) r)"
proof (cases a)
  case (Mount r')
  with assms show ?thesis by (auto simp: ids_ok_def mount_def Let_def)
next
  case (Unmount k)
  with assms show ?thesis by (auto simp: ids_ok_def unmount_def split: option.split)
next
  case (Push r' c)
  show ?thesis
  proof (cases c)
    case (Node n)
    with assms Push show ?thesis by (auto simp: ids_ok_def method_defs)
  next
    case (Fn f)
    with assms Push show ?thesis
      by (cases "f (iid (heap w r') + 1)") (fastforce simp: ids_ok_def method_defs Let_def)+
  qed
next
  case (Dismiss r' i)
  show ?thesis
  proof (cases i)
    case None
    with assms Dismiss show ?thesis
      by (auto simp: ids_ok_def method_defs slice_butlast distinct_tags_butlast
          dest: in_set_butlastD)
  next
    case (Some n)
    with assms Dismiss show ?thesis
      by (auto simp: ids_ok_def method_defs distinct_tags_filter)
  qed
next
  case (DismissAll r')
  with assms show ?thesis by (auto simp: ids_ok_def method_defs)
qed

lemma ids_ok_run: "ids_ok (heap (run as init) r)"
  by (rule run_invariant[where P = "\<lambda>w. ids_ok (heap w r)"])
     (simp_all add: ids_ok_step init_def ids_ok_new)

lemma filter_one_tag:
  assumes "distinct (filter (\<lambda>i. i \<noteq> - 1) (map fst xs))" and "n \<noteq> - 1"
  shows "(n \<notin> fst ` set xs \<and> filter (\<lambda>it. fst it \<noteq> n) xs = xs) \<or>
         (\<exists>pre c post. xs = pre @ (n, c) # post \<and> filter (\<lambda>it. fst it \<noteq> n) xs = pre @ post \<and>
            n \<notin> fst ` set (pre @ post))"
proof (cases "n \<in> fst ` set xs")
  case False
  then have "filter (\<lambda>it. fst it \<noteq> n) xs = xs"
    by (auto simp: filter_id_conv)
  with False show ?thesis by simp
next
  case True
  then obtain c where "(n, c) \<in> set xs" by auto
  then obtain pre post where xs: "xs = pre @ (n, c) # post"
    by (auto simp: in_set_conv_decomp)
  from assms have "n \<notin> fst ` set pre" "n \<notin> fst ` set post"
    by (auto simp: xs)
  then have "filter (\<lambda>it. fst it \<noteq> n) pre = pre" "filter (\<lambda>it. fst it \<noteq> n) post = post"
    "n \<notin> fst ` set (pre @ post)"
    by (auto simp: filter_id_conv)
  then show ?thesis using xs by auto
qed

subsection \<open>The ids passed to content functions\<close>

lemma iid_issued_step:
  "(iid (heap (snd (step a w)) r) = iid (heap w r) \<and> issued_by r (snd (step a w)) = issued_by r w)
   \<or> (iid (heap (snd (step a w)) r) = iid (heap w r) + 1 \<and>
      issued_by r (snd (step a w)) = issued_by r w @ [iid (heap w r) + 1])"
proof (cases a)
  case (Mount r')
  then show ?thesis by (auto simp: issued_by_def mount_def Let_def)
next
  case (Unmount k)
  then show ?thesis by (auto simp: issued_by_def unmount_def split: option.split)
next
  case (Push r' c)
  then show ?thesis
    by (cases c) (auto simp: issued_by_def method_defs Let_def split: sum.split)
next
  case (Dismiss r' i)
  then show ?thesis by (cases i) (auto simp: issued_by_def method_defs)
next
  case (DismissAll r')
  then show ?thesis by (auto simp: issued_by_def method_defs)
qed

lemma increasing_step: "increasing r w \<Longrightarrow> increasing r (snd (step a w))"
  using iid_issued_step[of a w r]
  by (fastforce simp: increasing_def sorted_wrt_append)

lemma increasing_run: "increasing r w \<Longrightarrow> increasing r (run as w)"
  by (rule run_invariant[where P = "increasing r"]) (simp_all add: increasing_step)

lemma iid_mono_step: "iid (heap w r) \<le> iid (heap (snd (step a w)) r)"
  using iid_issued_step[of a w r] by auto

lemma iid_mono_run: "iid (heap w r) \<le> iid (heap (run as w) r)"
proof (induction as arbitrary: w)
  case Nil
  show ?case by simp
next
  case (Cons a as)
  have "iid (heap w r) \<le> iid (heap (snd (step a w)) r)" by (rule iid_mono_step)
  also have "\<dots> \<le> iid (heap (run as (snd (step a w))) r)" by (rule Cons.IH)
  finally show ?case by simp
qed

lemma containers_step_throw:
  "mutates a = Some r \<Longrightarrow> \<not> returns a w \<Longrightarrow> containers (snd (step a w)) = containers w"
  by (cases a) (auto simp: method_defs Let_def split: arg.splits sum.splits)

lemma notified_step_throw:
  "mutates a = Some r \<Longrightarrow> \<not> returns a w \<Longrightarrow> notified (snd (step a w)) = notified w"
  by (cases a) (auto simp: method_defs Let_def split: arg.splits sum.splits)

lemma wf_distinct: assumes "wf w" shows "distinct (subscribers (heap w r))"
  unfolding distinct_conv_nth
proof (intro allI impI)
  fix i j
  assume i: "i < length (subscribers (heap w r))" and j: "j < length (subscribers (heap w r))"
    and ij: "i \<noteq> j"
  from assms i obtain c where c: "containers w (subscribers (heap w r) ! i) = Some c"
    "subscription c = int i + 1"
    unfolding wf_def by blast
  from assms j obtain d where d: "containers w (subscribers (heap w r) ! j) = Some d"
    "subscription d = int j + 1"
    unfolding wf_def by blast
  show "subscribers (heap w r) ! i \<noteq> subscribers (heap w r) ! j"
    using c d ij by auto
qed

lemma count_list_distinct: "distinct xs \<Longrightarrow> x \<in> set xs \<Longrightarrow> count_list xs x = 1"
  by (induction xs) (auto simp: count_list_0_iff)

lemma sorted_wrt_less_distinct: "sorted_wrt (<) (xs :: int list) \<Longrightarrow> distinct xs"
  by (induction xs) auto

subsection \<open>The order of the subscribers\<close>

lemma next_cid_step_mutation:
  "mutates a = Some r \<Longrightarrow> next_cid (snd (step a w)) = next_cid w"
  by (cases a) (auto simp: method_defs Let_def split: arg.split sum.split option.split)

lemma splice_is_take: "\<exists>n. splice start xs = take n xs"
  by (auto simp: splice_def Let_def)

lemma unmount_prefix:
  "\<exists>n. subscribers (heap (unmount k w) r) = take n (subscribers (heap w r))"
proof (cases "containers w k")
  case None
  then have "subscribers (heap (unmount k w) r)
      = take (length (subscribers (heap w r))) (subscribers (heap w r))"
    by (simp add: unmount_def)
  then show ?thesis by blast
next
  case (Some c)
  show ?thesis
  proof (cases "r = owner c")
    case True
    then show ?thesis
      using Some splice_is_take[of "subscription c - 1" "subscribers (heap w r)"]
      by (simp add: unmount_def)
  next
    case False
    then have "subscribers (heap (unmount k w) r)
        = take (length (subscribers (heap w r))) (subscribers (heap w r))"
      using Some by (simp add: unmount_def)
    then show ?thesis by blast
  qed
qed

lemma in_order_step: assumes "in_order w" shows "in_order (snd (step a w))"
proof (cases a)
  case (Mount r)
  with assms show ?thesis
    by (fastforce simp: in_order_def mount_def Let_def sorted_wrt_append)
next
  case (Unmount k)
  have nxt: "next_cid (unmount k w) = next_cid w"
    by (simp add: unmount_def split: option.split)
  have "sorted_wrt (<) (subscribers (heap (unmount k w) r)) \<and>
        (\<forall>j \<in> set (subscribers (heap (unmount k w) r)). j < next_cid w)" for r
  proof -
    from unmount_prefix[of k w r] obtain n where
      n: "subscribers (heap (unmount k w) r) = take n (subscribers (heap w r))" by blast
    show ?thesis
      using assms unfolding n in_order_def by (auto dest: in_set_takeD)
  qed
  then show ?thesis using Unmount by (simp add: in_order_def nxt)
next
  case (Push r c)
  then have "mutates a = Some r" by simp
  with assms show ?thesis
    by (simp add: in_order_def subscribers_step_mutation next_cid_step_mutation)
next
  case (Dismiss r i)
  then have "mutates a = Some r" by simp
  with assms show ?thesis
    by (simp add: in_order_def subscribers_step_mutation next_cid_step_mutation)
next
  case (DismissAll r)
  then have "mutates a = Some r" by simp
  with assms show ?thesis
    by (simp add: in_order_def subscribers_step_mutation next_cid_step_mutation)
qed

lemma in_order_run: "in_order (run as init)"
proof (rule run_invariant[where P = in_order])
  show "in_order (init :: 'c world)"
    by (simp add: in_order_def init_def new_Overlay_def)
qed (rule in_order_step)

section \<open>The claims\<close>

subsection \<open>Unmounting a Container\<close>

text \<open>
  What the cleanup of the effect does in general: the array that remains is a
  prefix of the old one (\<open>unmount_prefix\<close>), and the container's own closure is
  not in it.
\<close>

lemma unmounted_not_subscribed:
  assumes "wf w" shows "k \<notin> set (subscribers (heap (unmount k w) r))"
proof
  assume "k \<in> set (subscribers (heap (unmount k w) r))"
  from wf_owner[OF wf_unmount[OF assms] this]
  have "containers (unmount k w) k \<noteq> None" by auto
  then show False
    by (simp add: unmount_def split: option.splits)
qed

text \<open>
  Claim C1: unmounting one Container deregisters only that Container's own callback;
  every other subscriber that is still registered keeps being invoked on each later
  mutation.

  The code does not do this. Two Containers of overlay \<open>0\<close> are mounted, which
  registers the closures \<open>0\<close> and \<open>1\<close> with \<open>subscription\<close> 1 and 2. Unmounting the
  first one runs \<open>this.subscribers.splice(0)\<close>, which empties the array: the second
  Container is still mounted, but its closure is no longer registered, and the next
  \<open>push\<close> invokes no callback at all.
\<close>

theorem C1_unmount_drops_later_subscribers:
  "subscribers (heap (run [Mount 0, Mount 0 :: (string, unit) action] init) 0) = [0, 1]
   \<and> subscribers (heap (run [Mount 0, Mount 0, Unmount 0 :: (string, unit) action] init) 0) = []
   \<and> containers (run [Mount 0, Mount 0, Unmount 0 :: (string, unit) action] init) 1
       = Some \<lparr>owner = 0, subscription = 2, shown = []\<rparr>
   \<and> notified (run [Mount 0, Mount 0, Unmount 0, Push 0 (Node ''A'') :: (string, unit) action] init)
       = []"
  by (simp add: eval_defs)

subsection \<open>Removing by id\<close>

text \<open>
  Claim C2, as stated: \<open>dismiss(id)\<close> removes exactly the one item bearing the tag
  \<open>id\<close>. It fails for the tag \<open>-1\<close> that \<open>pushLast\<close> gives to every item pushed as
  a value: after \<open>push("A"); push("B")\<close> the call \<open>dismiss(-1)\<close> removes both items.
\<close>

theorem C2_counterexample:
  "components (heap (run [Push 0 (Node ''A''), Push 0 (Node ''B'') :: (string, unit) action] init) 0)
     = [(- 1, ''A''), (- 1, ''B'')]
   \<and> components (heap (run [Push 0 (Node ''A''), Push 0 (Node ''B''),
                             Dismiss 0 (Some (- 1)) :: (string, unit) action] init) 0) = []"
  by (simp add: eval_defs)

text \<open>
  Claim C2, amended: in every state \<open>dismiss(id)\<close> removes every item whose tag
  equals \<open>id\<close> and no other item, and the remaining items keep their relative
  order. In a world reached from the initial one by any sequence of calls, and for
  an \<open>id\<close> other than \<open>-1\<close>, at most one item bears \<open>id\<close>: either no item bears it
  and the list is unchanged, or the list is \<open>pre @ (id, c) # post\<close> and becomes
  \<open>pre @ post\<close>, where no item of \<open>pre\<close> and \<open>post\<close> bears \<open>id\<close>.
\<close>

theorem C2_dismiss_by_id:
  fixes as :: "('c, 'e) action list"
  shows "components (heap (dismiss r (Some id') w) r)
       = filter (\<lambda>it. fst it \<noteq> id') (components (heap w r))
   \<and> (w = run as init \<and> id' \<noteq> - 1 \<longrightarrow>
        (id' \<notin> fst ` set (components (heap w r)) \<and>
         components (heap (dismiss r (Some id') w) r) = components (heap w r))
      \<or> (\<exists>pre c post.
           components (heap w r) = pre @ (id', c) # post \<and>
           components (heap (dismiss r (Some id') w) r) = pre @ post \<and>
           id' \<notin> fst ` set (pre @ post)))"
proof -
  have eq: "components (heap (dismiss r (Some id') w) r)
       = filter (\<lambda>it. fst it \<noteq> id') (components (heap w r))"
    by (simp add: dismiss_def dismissById_def)
  have "distinct (filter (\<lambda>i. i \<noteq> - 1) (map fst (components (heap w r))))" if "w = run as init"
    using ids_ok_run[of as r] that by (simp add: ids_ok_def)
  then show ?thesis
    using filter_one_tag[of "components (heap w r)" id'] unfolding eq by blast
qed

theorem C2_dismiss_by_id_witness:
  "components (heap (run [Push 0 (Node ''A''), Push 0 (Fn factoryB), Push 0 (Node ''C'')
                          :: (string, unit) action] init) 0)
     = [(- 1, ''A'')] @ (0, ''B0'') # [(- 1, ''C'')]
   \<and> components (heap (dismiss 0 (Some 0)
        (run [Push 0 (Node ''A''), Push 0 (Fn factoryB), Push 0 (Node ''C'')
              :: (string, unit) action] init)) 0)
     = [(- 1, ''A'')] @ [(- 1, ''C'')]"
  using C2_dismiss_by_id [of 0 0
      "run [Push 0 (Node ''A''), Push 0 (Fn factoryB), Push 0 (Node ''C'')
            :: (string, unit) action] init"
      "[Push 0 (Node ''A''), Push 0 (Fn factoryB), Push 0 (Node ''C'')]"]
  by (simp add: eval_defs)

subsection \<open>Generated ids\<close>

text \<open>
  Claim C3: over any sequence of calls on the overlays, starting from construction,
  the ids that one overlay passes to content functions are strictly increasing in
  the order of the calls, hence pairwise different, whatever \<open>dismiss\<close> and
  \<open>dismissAll\<close> calls come in between; none exceeds the counter, and the counter
  never decreases when more calls follow.
\<close>

theorem C3_ids_never_repeat:
  "sorted_wrt (<) (issued_by r (run as init))
   \<and> distinct (issued_by r (run as init))
   \<and> (\<forall>i \<in> set (issued_by r (run as init)). i \<le> iid (heap (run as init) r))
   \<and> iid (heap (run as init) r) \<le> iid (heap (run (as @ bs) init) r)"
proof -
  have "increasing r init"
    by (simp add: increasing_def issued_by_def init_def)
  then have inc: "increasing r (run as init)" by (rule increasing_run)
  then have "sorted_wrt (<) (issued_by r (run as init))" by (simp add: increasing_def)
  moreover from this have "distinct (issued_by r (run as init))"
    by (rule sorted_wrt_less_distinct)
  ultimately show ?thesis
    using inc iid_mono_run[of "run as init" r bs] by (simp add: increasing_def run_append)
qed

theorem C3_ids_never_repeat_witness:
  "issued_by 0 (run [Push 0 (Fn factoryB), Dismiss 0 (Some 0), Push 0 (Fn factoryB),
                     DismissAll 0, Push 0 (Fn factoryB) :: (string, unit) action] init) = [0, 1, 2]
   \<and> iid (heap (run [Push 0 (Fn factoryB), Dismiss 0 (Some 0), Push 0 (Fn factoryB),
                     DismissAll 0, Push 0 (Fn factoryB) :: (string, unit) action] init) 0) = 2
   \<and> sorted_wrt (<) (issued_by 0 (run [Push 0 (Fn factoryB), Dismiss 0 (Some 0),
         Push 0 (Fn factoryB), DismissAll 0, Push 0 (Fn factoryB) :: (string, unit) action] init))"
  using C3_ids_never_repeat [of 0
      "[Push 0 (Fn factoryB), Dismiss 0 (Some 0), Push 0 (Fn factoryB), DismissAll 0,
        Push 0 (Fn factoryB) :: (string, unit) action]" "[]"]
  by (simp add: eval_defs issued_by_def)

subsection \<open>The scenario\<close>

text \<open>
  Claim C4: on a new overlay, \<open>push("A")\<close>, \<open>push(id => "B" + id)\<close>, \<open>dismiss(0)\<close>
  and \<open>dismiss()\<close> give the lists \<open>[(-1, "A")]\<close>, \<open>[(-1, "A"), (0, "B0")]\<close>,
  \<open>[(-1, "A")]\<close> and \<open>[]\<close>.
\<close>

theorem C4_scenario:
  "components (heap (run [Push r (Node ''A'')] init) r) = [(- 1, ''A'')]
   \<and> components (heap (run [Push r (Node ''A''), Push r (Fn factoryB)] init) r)
       = [(- 1, ''A''), (0, ''B0'')]
   \<and> components (heap (run [Push r (Node ''A''), Push r (Fn factoryB),
                             Dismiss r (Some 0)] init) r)
       = [(- 1, ''A'')]
   \<and> components (heap (run [Push r (Node ''A''), Push r (Fn factoryB),
                             Dismiss r (Some 0), Dismiss r None] init) r)
       = []"
  by (simp add: eval_defs)

subsection \<open>Calls that remove nothing\<close>

text \<open>
  Claim C5: when no item bears \<open>id\<close>, \<open>dismiss(id)\<close> returns normally, leaves the
  list of items as it was, and still invokes every registered callback, in the
  order of the \<open>subscribers\<close> array.
\<close>

theorem C5_dismiss_absent_id:
  assumes "id' \<notin> fst ` set (components (heap w r))"
  shows "fst (step (Dismiss r (Some id')) w) = Normal
     \<and> components (heap (dismiss r (Some id') w) r) = components (heap w r)
     \<and> notified (dismiss r (Some id') w) = notified w @ subscribers (heap w r)"
proof -
  from assms have "filter (\<lambda>it. fst it \<noteq> id') (components (heap w r)) = components (heap w r)"
    by (auto simp: filter_id_conv)
  then show ?thesis
    by (simp add: dismiss_def dismissById_def)
qed

theorem C5_dismiss_absent_id_witness:
  "7 \<notin> fst ` set (components (heap (run [Mount 0, Mount 0, Push 0 (Node ''A''),
            Push 0 (Fn factoryB) :: (string, unit) action] init) 0))
   \<and> components (heap (dismiss 0 (Some 7) (run [Mount 0, Mount 0, Push 0 (Node ''A''),
            Push 0 (Fn factoryB) :: (string, unit) action] init)) 0)
       = [(- 1, ''A''), (0, ''B0'')]
   \<and> notified (dismiss 0 (Some 7) (run [Mount 0, Mount 0, Push 0 (Node ''A''),
            Push 0 (Fn factoryB) :: (string, unit) action] init))
       = [0, 1, 0, 1] @ [0, 1]"
  using C5_dismiss_absent_id [of 7
      "run [Mount 0, Mount 0, Push 0 (Node ''A''), Push 0 (Fn factoryB)
            :: (string, unit) action] init" 0]
  by (simp add: eval_defs)

text \<open>
  Claim C6: \<open>dismiss()\<close> returns normally and removes the last item, whatever its
  tag: a list \<open>xs @ [x]\<close> becomes \<open>xs\<close>, and the empty list stays empty.
\<close>

theorem C6_dismiss_last:
  "fst (step (Dismiss r None) w) = Normal
   \<and> components (heap (dismiss r None w) r) = butlast (components (heap w r))
   \<and> (\<forall>xs x. components (heap w r) = xs @ [x] \<longrightarrow>
         components (heap (dismiss r None w) r) = xs)
   \<and> (components (heap w r) = [] \<longrightarrow> components (heap (dismiss r None w) r) = [])"
  by (simp add: dismiss_def dismissLast_def slice_butlast)

theorem C6_dismiss_last_witness:
  "components (heap (run [Push 0 (Fn factoryB), Push 0 (Node ''A'') :: (string, unit) action] init) 0)
     = [(0, ''B0'')] @ [(- 1, ''A'')]
   \<and> components (heap (dismiss 0 None
        (run [Push 0 (Fn factoryB), Push 0 (Node ''A'') :: (string, unit) action] init)) 0)
     = [(0, ''B0'')]
   \<and> components (heap (init :: string world) 0) = []
   \<and> components (heap (dismiss 0 None (init :: string world)) 0) = []"
  using C6_dismiss_last [of 0
      "run [Push 0 (Fn factoryB), Push 0 (Node ''A'') :: (string, unit) action] init"]
    C6_dismiss_last [of 0 "init :: string world"]
  by (simp add: eval_defs)

subsection \<open>Notification\<close>

text \<open>The list of items after each of the five calls, from the list before it.\<close>

lemma components_step_mutation:
  "components (heap (snd (step (Push r (Node c)) w)) r) = components (heap w r) @ [(- 1, c)]"
  "f (iid (heap w r) + 1) = Inr c \<Longrightarrow>
     components (heap (snd (step (Push r (Fn f)) w)) r)
       = components (heap w r) @ [(iid (heap w r) + 1, c)]"
  "f (iid (heap w r) + 1) = Inr c \<Longrightarrow>
     iid (heap (snd (step (Push r (Fn f)) w)) r) = iid (heap w r) + 1"
  "components (heap (snd (step (Dismiss r (Some n)) w)) r)
     = filter (\<lambda>it. fst it \<noteq> n) (components (heap w r))"
  "components (heap (snd (step (Dismiss r None) w)) r) = butlast (components (heap w r))"
  "components (heap (snd (step (DismissAll r) w)) r) = []"
  by (simp_all add: method_defs Let_def slice_butlast)

text \<open>
  Claim C7: in a world reached from the initial one, each of the five mutation
  methods that returns has, when it returns, updated the list of items and
  invoked exactly the callbacks of the \<open>subscribers\<close> array, in the order of the
  array, each one once.

  The list is updated in full: \<open>push\<close> of a value appends the value with the tag
  \<open>-1\<close>; \<open>push\<close> of a function increments the counter and appends the function's
  result with the new counter as its tag; \<open>dismiss(id)\<close> keeps the items whose tag
  is not \<open>id\<close>; \<open>dismiss()\<close> drops the last item; \<open>dismissAll()\<close> leaves the empty
  list. Containers are numbered in the order in which they are mounted, and the
  array is increasing, so the order of the array is the order of registration.
  Every callback ran after the list was updated: the state cell of its container
  holds the new list.
\<close>

theorem C7_notify_once_in_order:
  fixes as :: "('c, 'e) action list" and a :: "('c, 'e2) action"
  assumes "w = run as init" and "mutates a = Some r" and "returns a w"
  shows "fst (step a w) = Normal
     \<and> (\<forall>c. a = Push r (Node c) \<longrightarrow>
          components (heap (snd (step a w)) r) = components (heap w r) @ [(- 1, c)])
     \<and> (\<forall>f c. a = Push r (Fn f) \<and> f (iid (heap w r) + 1) = Inr c \<longrightarrow>
          components (heap (snd (step a w)) r)
            = components (heap w r) @ [(iid (heap w r) + 1, c)] \<and>
          iid (heap (snd (step a w)) r) = iid (heap w r) + 1)
     \<and> (\<forall>n. a = Dismiss r (Some n) \<longrightarrow>
          components (heap (snd (step a w)) r)
            = filter (\<lambda>it. fst it \<noteq> n) (components (heap w r)))
     \<and> (a = Dismiss r None \<longrightarrow>
          components (heap (snd (step a w)) r) = butlast (components (heap w r)))
     \<and> (a = DismissAll r \<longrightarrow> components (heap (snd (step a w)) r) = [])
     \<and> notified (snd (step a w)) = notified w @ subscribers (heap w r)
     \<and> sorted_wrt (<) (subscribers (heap w r))
     \<and> (\<forall>k \<in> set (subscribers (heap w r)).
          count_list (drop (length (notified w)) (notified (snd (step a w)))) k = 1)
     \<and> (\<forall>k \<in> set (subscribers (heap w r)).
          \<exists>c. containers (snd (step a w)) k = Some c \<and>
              shown c = components (heap (snd (step a w)) r))"
proof -
  have wf: "wf w" unfolding assms(1) by (rule wf_run)
  have n: "notified (snd (step a w)) = notified w @ subscribers (heap w r)"
    using assms(2,3) by (rule notified_step_mutation)
  have s: "sorted_wrt (<) (subscribers (heap w r))"
    using in_order_run[of as] unfolding assms(1) in_order_def by blast
  have once: "\<forall>k \<in> set (subscribers (heap w r)).
      count_list (drop (length (notified w)) (notified (snd (step a w)))) k = 1"
    using wf_distinct[OF wf, of r] by (simp add: n count_list_distinct)
  have seen: "\<forall>k \<in> set (subscribers (heap w r)).
      \<exists>c. containers (snd (step a w)) k = Some c \<and>
          shown c = components (heap (snd (step a w)) r)"
  proof
    fix k assume k: "k \<in> set (subscribers (heap w r))"
    from wf_owner[OF wf k] k
    show "\<exists>c. containers (snd (step a w)) k = Some c \<and>
          shown c = components (heap (snd (step a w)) r)"
      by (auto simp: containers_step_mutation[OF assms(2,3)])
  qed
  have node: "\<forall>c. a = Push r (Node c) \<longrightarrow>
      components (heap (snd (step a w)) r) = components (heap w r) @ [(- 1, c)]"
    using components_step_mutation(1)[of r _ w] by blast
  have fn: "\<forall>f c. a = Push r (Fn f) \<and> f (iid (heap w r) + 1) = Inr c \<longrightarrow>
      components (heap (snd (step a w)) r)
        = components (heap w r) @ [(iid (heap w r) + 1, c)] \<and>
      iid (heap (snd (step a w)) r) = iid (heap w r) + 1"
    using components_step_mutation(2,3)[of _ w r] by blast
  have by_id: "\<forall>n. a = Dismiss r (Some n) \<longrightarrow>
      components (heap (snd (step a w)) r)
        = filter (\<lambda>it. fst it \<noteq> n) (components (heap w r))"
    using components_step_mutation(4)[of r _ w] by blast
  have lst: "a = Dismiss r None \<longrightarrow>
      components (heap (snd (step a w)) r) = butlast (components (heap w r))"
    using components_step_mutation(5)[of r w] by blast
  have clr: "a = DismissAll r \<longrightarrow> components (heap (snd (step a w)) r) = []"
    using components_step_mutation(6)[of r w] by blast
  from completion_step[OF assms(3)] node fn by_id lst clr n s once seen
  show ?thesis by (intro conjI)
qed

theorem C7_notify_once_in_order_witness:
  "components (heap (run [Mount 0, Mount 0, Push 0 (Node ''A''), Push 0 (Fn factoryB)
          :: (string, unit) action] init) 0) = [(- 1, ''A''), (0, ''B0'')]
   \<and> subscribers (heap (run [Mount 0, Mount 0, Push 0 (Node ''A''), Push 0 (Fn factoryB)
          :: (string, unit) action] init) 0) = [0, 1]
   \<and> notified (run [Mount 0, Mount 0, Push 0 (Node ''A''), Push 0 (Fn factoryB)
          :: (string, unit) action] init) = [0, 1, 0, 1]
   \<and> components (heap (snd (step (Push 0 (Node ''C'') :: (string, unit) action)
        (run [Mount 0, Mount 0, Push 0 (Node ''A''), Push 0 (Fn factoryB)
          :: (string, unit) action] init))) 0) = [(- 1, ''A''), (0, ''B0''), (- 1, ''C'')]
   \<and> components (heap (snd (step (Push 0 (Fn factoryB) :: (string, unit) action)
        (run [Mount 0, Mount 0, Push 0 (Node ''A''), Push 0 (Fn factoryB)
          :: (string, unit) action] init))) 0) = [(- 1, ''A''), (0, ''B0''), (1, ''B1'')]
   \<and> components (heap (snd (step (Dismiss 0 (Some (- 1)) :: (string, unit) action)
        (run [Mount 0, Mount 0, Push 0 (Node ''A''), Push 0 (Fn factoryB)
          :: (string, unit) action] init))) 0) = [(0, ''B0'')]
   \<and> components (heap (snd (step (Dismiss 0 None :: (string, unit) action)
        (run [Mount 0, Mount 0, Push 0 (Node ''A''), Push 0 (Fn factoryB)
          :: (string, unit) action] init))) 0) = [(- 1, ''A'')]
   \<and> components (heap (snd (step (DismissAll 0 :: (string, unit) action)
        (run [Mount 0, Mount 0, Push 0 (Node ''A''), Push 0 (Fn factoryB)
          :: (string, unit) action] init))) 0) = []
   \<and> notified (snd (step (DismissAll 0 :: (string, unit) action)
        (run [Mount 0, Mount 0, Push 0 (Node ''A''), Push 0 (Fn factoryB)
          :: (string, unit) action] init))) = [0, 1, 0, 1] @ [0, 1]
   \<and> containers (snd (step (Dismiss 0 None :: (string, unit) action)
        (run [Mount 0, Mount 0, Push 0 (Node ''A''), Push 0 (Fn factoryB)
          :: (string, unit) action] init))) 1
       = Some \<lparr>owner = 0, subscription = 2, shown = [(- 1, ''A'')]\<rparr>"
  using
    C7_notify_once_in_order [of
      "run [Mount 0, Mount 0, Push 0 (Node ''A''), Push 0 (Fn factoryB)
            :: (string, unit) action] init"
      "[Mount 0, Mount 0, Push 0 (Node ''A''), Push 0 (Fn factoryB)]"
      "Push 0 (Node ''C'') :: (string, unit) action" 0]
    C7_notify_once_in_order [of
      "run [Mount 0, Mount 0, Push 0 (Node ''A''), Push 0 (Fn factoryB)
            :: (string, unit) action] init"
      "[Mount 0, Mount 0, Push 0 (Node ''A''), Push 0 (Fn factoryB)]"
      "Push 0 (Fn factoryB) :: (string, unit) action" 0]
    C7_notify_once_in_order [of
      "run [Mount 0, Mount 0, Push 0 (Node ''A''), Push 0 (Fn factoryB)
            :: (string, unit) action] init"
      "[Mount 0, Mount 0, Push 0 (Node ''A''), Push 0 (Fn factoryB)]"
      "Dismiss 0 (Some (- 1)) :: (string, unit) action" 0]
    C7_notify_once_in_order [of
      "run [Mount 0, Mount 0, Push 0 (Node ''A''), Push 0 (Fn factoryB)
            :: (string, unit) action] init"
      "[Mount 0, Mount 0, Push 0 (Node ''A''), Push 0 (Fn factoryB)]"
      "Dismiss 0 None :: (string, unit) action" 0]
    C7_notify_once_in_order [of
      "run [Mount 0, Mount 0, Push 0 (Node ''A''), Push 0 (Fn factoryB)
            :: (string, unit) action] init"
      "[Mount 0, Mount 0, Push 0 (Node ''A''), Push 0 (Fn factoryB)]"
      "DismissAll 0 :: (string, unit) action" 0]
  by (simp add: eval_defs)

subsection \<open>No mutation method throws\<close>

text \<open>
  Claim C8: a call of \<open>push\<close>, \<open>dismiss\<close> or \<open>dismissAll\<close> completes normally,
  provided that a content function passed to \<open>push\<close> does not throw at the id it
  is given. In particular \<open>dismiss(id)\<close> with an id that no item bears and
  \<open>dismiss()\<close> on an empty list complete normally and leave the list as it was.
\<close>

theorem C8_mutations_do_not_throw:
  assumes "mutates a = Some r" and "returns a w"
  shows "fst (step a w) = Normal
     \<and> (\<forall>n. a = Dismiss r (Some n) \<and> n \<notin> fst ` set (components (heap w r)) \<longrightarrow>
          components (heap (snd (step a w)) r) = components (heap w r))
     \<and> (a = Dismiss r None \<and> components (heap w r) = [] \<longrightarrow>
          components (heap (snd (step a w)) r) = [])"
proof -
  have "components (heap (snd (step (Dismiss r (Some n)) w)) r) = components (heap w r)"
    if "n \<notin> fst ` set (components (heap w r))" for n
  proof -
    from that have "filter (\<lambda>it. fst it \<noteq> n) (components (heap w r)) = components (heap w r)"
      by (auto simp: filter_id_conv)
    then show ?thesis by (simp add: dismiss_def dismissById_def)
  qed
  moreover have "components (heap (snd (step (Dismiss r None) w)) r) = []"
    if "components (heap w r) = []"
    using that by (simp add: dismiss_def dismissLast_def slice_butlast)
  ultimately show ?thesis
    using completion_step[OF assms(2)] by blast
qed

theorem C8_mutations_do_not_throw_witness:
  "fst (step (Push 0 (Node ''A'') :: (string, unit) action) init) = Normal
   \<and> fst (step (Push 0 (Fn factoryB) :: (string, unit) action) init) = Normal
   \<and> fst (step (Dismiss 0 (Some 5) :: (string, unit) action) init) = Normal
   \<and> components (heap (snd (step (Dismiss 0 (Some 5) :: (string, unit) action) init)) 0) = []
   \<and> fst (step (Dismiss 0 None :: (string, unit) action) init) = Normal
   \<and> components (heap (snd (step (Dismiss 0 None :: (string, unit) action) init)) 0) = []
   \<and> fst (step (DismissAll 0 :: (string, unit) action) init) = Normal"
  using C8_mutations_do_not_throw [of "Push 0 (Node ''A'') :: (string, unit) action" 0 init]
    C8_mutations_do_not_throw [of "Push 0 (Fn factoryB) :: (string, unit) action" 0 init]
    C8_mutations_do_not_throw [of "Dismiss 0 (Some 5) :: (string, unit) action" 0 init]
    C8_mutations_do_not_throw [of "Dismiss 0 None :: (string, unit) action" 0 init]
    C8_mutations_do_not_throw [of "DismissAll 0 :: (string, unit) action" 0 init]
  by (simp add: eval_defs)

subsection \<open>Two overlays\<close>

text \<open>
  Claim C9: in a world reached from the initial one, a mutation method called on
  overlay \<open>r1\<close> leaves the three fields of any other overlay \<open>r2\<close> as they were
  (the list of items, the counter and the subscribers), invokes no callback that is
  registered with \<open>r2\<close>, and leaves the containers subscribed to \<open>r2\<close> as they were.
\<close>

theorem C9_registries_isolated:
  fixes as :: "('c, 'e) action list" and a :: "('c, 'e2) action"
  assumes "w = run as init" and "mutates a = Some r1" and "r2 \<noteq> r1"
  shows "heap (snd (step a w)) r2 = heap w r2
     \<and> set (drop (length (notified w)) (notified (snd (step a w))))
         \<inter> set (subscribers (heap w r2)) = {}
     \<and> (\<forall>k \<in> set (subscribers (heap w r2)). containers (snd (step a w)) k = containers w k)"
proof -
  have wf: "wf w" unfolding assms(1) by (rule wf_run)
  have disj: "k \<notin> set (subscribers (heap w r1))" if "k \<in> set (subscribers (heap w r2))" for k
    using wf_owner[OF wf that] wf_owner[OF wf, of k r1] assms(3) by auto
  have "set (drop (length (notified w)) (notified (snd (step a w))))
      \<subseteq> set (subscribers (heap w r1))"
    using notified_step_prefix[OF assms(2), of w] by auto
  then have "set (drop (length (notified w)) (notified (snd (step a w))))
         \<inter> set (subscribers (heap w r2)) = {}"
    using disj by auto
  moreover have "containers (snd (step a w)) k = containers w k"
    if "k \<in> set (subscribers (heap w r2))" for k
  proof (cases "returns a w")
    case True
    show ?thesis using disj[OF that] by (simp add: containers_step_mutation[OF assms(2) True])
  next
    case False
    show ?thesis by (simp add: containers_step_throw[OF assms(2) False])
  qed
  ultimately show ?thesis
    using heap_step_other[OF assms(2), of r2 w] assms(3) by blast
qed

theorem C9_registries_isolated_witness:
  "heap (snd (step (Push 0 (Fn factoryB))
      (run [Mount 0, Mount 1, Push 1 (Fn factoryB) :: (string, unit) action] init))) 1
     = \<lparr>iid = 0, components = [(0, ''B0'')], subscribers = [1]\<rparr>
   \<and> heap (run [Mount 0, Mount 1, Push 1 (Fn factoryB) :: (string, unit) action] init) 1
     = \<lparr>iid = 0, components = [(0, ''B0'')], subscribers = [1]\<rparr>
   \<and> notified (run [Mount 0, Mount 1, Push 1 (Fn factoryB) :: (string, unit) action] init) = [1]
   \<and> notified (snd (step (Push 0 (Fn factoryB) :: (string, unit) action)
      (run [Mount 0, Mount 1, Push 1 (Fn factoryB) :: (string, unit) action] init))) = [1, 0]"
  using C9_registries_isolated [of
      "run [Mount 0, Mount 1, Push 1 (Fn factoryB) :: (string, unit) action] init"
      "[Mount 0, Mount 1, Push 1 (Fn factoryB)]" "Push 0 (Fn factoryB) :: (string, unit) action" 0 1]
  by (simp add: eval_defs)

subsection \<open>A content function that throws\<close>

text \<open>
  Claim C10: when the content function throws at the id it is given, \<open>push\<close> throws
  the same exception; the list of items is unchanged, no callback is invoked and no
  container is touched; the counter has been incremented all the same, so that the
  next \<open>push\<close> of a function is given the id after the one that was lost.
\<close>

theorem C10_throwing_factory:
  assumes "component (iid (heap w r) + 1) = Inl e"
  shows "fst (push r (Fn component) w) = Throw e
     \<and> components (heap (snd (push r (Fn component) w)) r) = components (heap w r)
     \<and> notified (snd (push r (Fn component) w)) = notified w
     \<and> containers (snd (push r (Fn component) w)) = containers w
     \<and> iid (heap (snd (push r (Fn component) w)) r) = iid (heap w r) + 1
     \<and> issued (snd (push r (Fn g) (snd (push r (Fn component) w))))
         = issued w @ [(r, iid (heap w r) + 1), (r, iid (heap w r) + 2)]"
  using assms by (simp add: push_def pushWithId_def Let_def split: sum.split)

theorem C10_throwing_factory_witness:
  "fst (push 0 (Fn (\<lambda>_. Inl ''boom''))
        (run [Mount 0, Push 0 (Node ''A'') :: (string, string) action] init))
     = Throw ''boom''
   \<and> components (heap (snd (push 0 (Fn (\<lambda>_. Inl ''boom''))
        (run [Mount 0, Push 0 (Node ''A'') :: (string, string) action] init))) 0) = [(- 1, ''A'')]
   \<and> notified (snd (push 0 (Fn (\<lambda>_. Inl ''boom''))
        (run [Mount 0, Push 0 (Node ''A'') :: (string, string) action] init))) = [0]
   \<and> iid (heap (snd (push 0 (Fn (\<lambda>_. Inl ''boom''))
        (run [Mount 0, Push 0 (Node ''A'') :: (string, string) action] init))) 0) = 0
   \<and> components (heap (snd (push 0 (Fn (factoryB :: int \<Rightarrow> string + string))
        (snd (push 0 (Fn (\<lambda>_. Inl ''boom''))
          (run [Mount 0, Push 0 (Node ''A'') :: (string, string) action] init))))) 0)
       = [(- 1, ''A''), (1, ''B1'')]"
  using C10_throwing_factory [of "\<lambda>_. Inl ''boom''"
      "run [Mount 0, Push 0 (Node ''A'') :: (string, string) action] init" 0 "''boom''"
      "factoryB :: int \<Rightarrow> string + string"]
  by (simp add: eval_defs)

end
